theory Spec2Isabelle
  imports Main
begin

section \<open>Data model of \<^verbatim>\<open>estnltk/mw_verbs/utils.py\<close>\<close>

text \<open>
  The module works on JSON-style word tokens: Python dicts with string keys. The
  exceptions it can raise are the failed \<^verbatim>\<open>assert\<close>, the missing key of
  \<^verbatim>\<open>del d[k]\<close>, the \<^verbatim>\<open>TypeError\<close> of \<^verbatim>\<open>pattern.match\<close> on a value
  that is not a string, and \<^verbatim>\<open>re.error\<close> of \<^verbatim>\<open>re.compile\<close>.
\<close>

datatype error = AssertionError | KeyError | TypeError | ReError

text \<open>Scalar (hashable) values a token field can hold: a string or an integer.\<close>

datatype scalar = PyStr string | PyInt int

text \<open>
  One morphological analysis: a dict from field names (\<^verbatim>\<open>root\<close>, \<^verbatim>\<open>partofspeech\<close>,
  \<^verbatim>\<open>ending\<close>, \<^verbatim>\<open>form\<close>, \<^verbatim>\<open>clitic\<close>, \<^verbatim>\<open>lemma\<close>) to their string values.
  The list-valued entry \<^verbatim>\<open>root_tokens\<close> is never read by this module and is left out.
\<close>

type_synonym analysis = "string \<rightharpoonup> string"

text \<open>
  A word token. The three keys this module reads by name have fields of their own, with
  the types their uses give them (\<^verbatim>\<open>wordID\<close> is compared with integers, \<^verbatim>\<open>clauseID\<close>
  is a dict key, \<^verbatim>\<open>analysis\<close> is iterated as a list of dicts); \<open>None\<close> is an absent
  key. Every other key (\<^verbatim>\<open>text\<close> among them) lives in \<open>other\<close>.
\<close>

record token =
  analysis :: "analysis list option"
  wordID :: "int option"
  clauseID :: "scalar option"
  other :: "string \<rightharpoonup> scalar"

text \<open>What \<^verbatim>\<open>tokenJson[field]\<close> holds, for any key.\<close>

datatype field_value = Scalar scalar | Analyses "analysis list"

definition token_field :: "token \<Rightarrow> string \<Rightarrow> field_value option" where
  "token_field tokenJson field =
     (if field = ''analysis'' then map_option Analyses (analysis tokenJson)
      else if field = ''wordID'' then map_option (\<lambda>i. Scalar (PyInt i)) (wordID tokenJson)
      else if field = ''clauseID'' then map_option Scalar (clauseID tokenJson)
      else map_option Scalar (other tokenJson field))"

text \<open>
  A compiled regular expression is taken by what \<^verbatim>\<open>pattern.match(s) != None\<close> returns
  on each string \<open>s\<close>: whether the expression matches at the start of \<open>s\<close>. The
  regular-expression engine itself is Python's and is not part of this module.
\<close>

type_synonym pattern = "string \<Rightarrow> bool"

text \<open>The compiled form of an expression without metacharacters: a literal prefix.\<close>

definition literal :: "string \<Rightarrow> pattern" where
  "literal l s = (take (length l) s = l)"

text \<open>\<^verbatim>\<open>pattern.match(value) != None\<close>: a \<^verbatim>\<open>TypeError\<close> unless the value is a string.\<close>

definition re_match :: "pattern \<Rightarrow> field_value \<Rightarrow> error + bool" where
  "re_match compiled v =
     (case v of Scalar (PyStr s) \<Rightarrow> Inr (compiled s) | _ \<Rightarrow> Inl TypeError)"

text \<open>
  A Python dict whose iteration order matters is an association list in insertion order;
  \<^verbatim>\<open>d[k] = v\<close> overwrites in place or appends a new key at the end.
\<close>

fun dict_set :: "'k \<Rightarrow> 'v \<Rightarrow> ('k \<times> 'v) list \<Rightarrow> ('k \<times> 'v) list" where
  "dict_set k v [] = [(k, v)]"
| "dict_set k v ((k', v') # d) =
     (if k' = k then (k, v) # d else (k', v') # dict_set k v d)"

section \<open>\<^verbatim>\<open>WordTemplate\<close>: the rule set\<close>

text \<open>
  The two rule dicts of a \<^verbatim>\<open>WordTemplate\<close>; each is \<^verbatim>\<open>None\<close> until its first rule
  is added.
\<close>

record template =
  analysisRules :: "(string \<times> pattern) list option"
  otherRules :: "(string \<times> pattern) list option"

definition analysisFields :: "string list" where
  "analysisFields = [''root'', ''partofspeech'', ''ending'', ''form'', ''clitic'', ''lemma'']"

definition new_template :: template where
  "new_template = \<lparr>analysisRules = None, otherRules = None\<rparr>"

text \<open>
  \<^verbatim>\<open>addRule\<close>; \<open>re_compile\<close> is Python's \<^verbatim>\<open>re.compile\<close>, \<open>None\<close> where it raises
  \<^verbatim>\<open>re.error\<close>.
\<close>

definition addRule ::
  "(string \<Rightarrow> pattern option) \<Rightarrow> template \<Rightarrow> string \<Rightarrow> string \<Rightarrow> error + template" where
  "addRule re_compile self field regExpPattern =
     (case re_compile regExpPattern of
        None \<Rightarrow> Inl ReError
      | Some compiled \<Rightarrow>
          if field \<in> set analysisFields then
            Inr (self\<lparr>analysisRules :=
              Some (dict_set field compiled
                (case analysisRules self of None \<Rightarrow> [] | Some d \<Rightarrow> d))\<rparr>)
          else
            Inr (self\<lparr>otherRules :=
              Some (dict_set field compiled
                (case otherRules self of None \<Rightarrow> [] | Some d \<Rightarrow> d))\<rparr>))"

text \<open>\<^verbatim>\<open>__init__\<close>: the rules of \<^verbatim>\<open>newRules\<close> are added in the dict's order.\<close>

fun addRules ::
  "(string \<Rightarrow> pattern option) \<Rightarrow> template \<Rightarrow> (string \<times> string) list \<Rightarrow> error + template" where
  "addRules re_compile self [] = Inr self"
| "addRules re_compile self ((ruleKey, regExpPattern) # newRules) =
     (case addRule re_compile self ruleKey regExpPattern of
        Inl e \<Rightarrow> Inl e
      | Inr self' \<Rightarrow> addRules re_compile self' newRules)"

definition WordTemplate ::
  "(string \<Rightarrow> pattern option) \<Rightarrow> (string \<times> string) list \<Rightarrow> error + template" where
  "WordTemplate re_compile newRules = addRules re_compile new_template newRules"

section \<open>Matching a single token\<close>

text \<open>
  The loop over \<^verbatim>\<open>self.otherRules\<close> (lines 138-140): \<^verbatim>\<open>field in tokenJson and
  pattern.match(tokenJson[field]) != None\<close>, appended to \<^verbatim>\<open>otherMatches\<close>. No rule is
  skipped: a failed rule does not stop the loop, a \<^verbatim>\<open>TypeError\<close> does.
\<close>

fun otherMatches_loop ::
  "token \<Rightarrow> (string \<times> pattern) list \<Rightarrow> bool list \<Rightarrow> error + bool list" where
  "otherMatches_loop tokenJson [] otherMatches = Inr otherMatches"
| "otherMatches_loop tokenJson ((field, compiled) # rules) otherMatches =
     (case token_field tokenJson field of
        None \<Rightarrow> otherMatches_loop tokenJson rules (otherMatches @ [False])
      | Some v \<Rightarrow>
          (case re_match compiled v of
             Inl e \<Rightarrow> Inl e
           | Inr m \<Rightarrow> otherMatches_loop tokenJson rules (otherMatches @ [m])))"

text \<open>\<^verbatim>\<open>analysis[field] if field in analysis else ""\<close>.\<close>

definition analysis_value :: "analysis \<Rightarrow> string \<Rightarrow> string" where
  "analysis_value a field = (case a field of Some v \<Rightarrow> v | None \<Rightarrow> '''')"

text \<open>
  The inner loop of \<^verbatim>\<open>matches\<close> (lines 152-157): it stops at the first rule that does
  not match.
\<close>

fun matches_loop :: "analysis \<Rightarrow> (string \<times> pattern) list \<Rightarrow> bool list \<Rightarrow> bool list" where
  "matches_loop a [] ms = ms"
| "matches_loop a ((field, compiled) # rules) ms =
     (let m = compiled (analysis_value a field) in
      if \<not> m then ms @ [m] else matches_loop a rules (ms @ [m]))"

text \<open>Python's \<^verbatim>\<open>all\<close> and \<^verbatim>\<open>any\<close> on a list of booleans.\<close>

definition py_all :: "bool list \<Rightarrow> bool" where
  "py_all bs = list_all (\<lambda>b. b) bs"

definition py_any :: "bool list \<Rightarrow> bool" where
  "py_any bs = list_ex (\<lambda>b. b) bs"

text \<open>Lines 145-162 of \<^verbatim>\<open>matches\<close>: the analysis rules, and the final \<^verbatim>\<open>return False\<close>.\<close>

definition matches_analysis :: "template \<Rightarrow> token \<Rightarrow> error + bool" where
  "matches_analysis self tokenJson =
     (case analysisRules self of
        None \<Rightarrow> Inr False
      | Some rules \<Rightarrow>
          (case analysis tokenJson of
             None \<Rightarrow> Inl AssertionError
           | Some analyses \<Rightarrow>
               Inr (py_any (map (\<lambda>a. py_all (matches_loop a rules [])) analyses))))"

definition matches :: "template \<Rightarrow> token \<Rightarrow> error + bool" where
  "matches self tokenJson =
     (case otherRules self of
        None \<Rightarrow> matches_analysis self tokenJson
      | Some rules \<Rightarrow>
          (case otherMatches_loop tokenJson rules [] of
             Inl e \<Rightarrow> Inl e
           | Inr otherMatches \<Rightarrow>
               if otherMatches = [] \<or> \<not> py_all otherMatches then Inr False
               else if analysisRules self = None \<and> py_all otherMatches then Inr True
               else matches_analysis self tokenJson))"

text \<open>
  \<^verbatim>\<open>matchingAnalyses\<close>. Its inner loop has no \<^verbatim>\<open>break\<close>: every rule is tried on
  every analysis, and an analysis is kept when \<^verbatim>\<open>matches and all(matches)\<close>.
\<close>

definition matchingAnalyses_analysis :: "template \<Rightarrow> token \<Rightarrow> error + analysis list" where
  "matchingAnalyses_analysis self tokenJson =
     (case analysisRules self of
        None \<Rightarrow> Inr []
      | Some rules \<Rightarrow>
          (case analysis tokenJson of
             None \<Rightarrow> Inl AssertionError
           | Some analyses \<Rightarrow>
               Inr (filter
                 (\<lambda>a. let ms = map (\<lambda>(field, compiled). compiled (analysis_value a field)) rules
                      in ms \<noteq> [] \<and> py_all ms)
                 analyses)))"

definition matchingAnalyses :: "template \<Rightarrow> token \<Rightarrow> error + analysis list" where
  "matchingAnalyses self tokenJson =
     (case otherRules self of
        None \<Rightarrow> matchingAnalyses_analysis self tokenJson
      | Some rules \<Rightarrow>
          (case otherMatches_loop tokenJson rules [] of
             Inl e \<Rightarrow> Inl e
           | Inr otherMatches \<Rightarrow>
               if otherMatches = [] \<or> \<not> py_all otherMatches then Inr []
               else matchingAnalyses_analysis self tokenJson))"

section \<open>Matches from a list of tokens\<close>





section \<open>Indexing word tokens\<close>

text \<open>
  \<^verbatim>\<open>addWordIDs\<close> and \<^verbatim>\<open>removeWordIDs\<close> write into the token dicts of the sentence they
  are given. A sentence (\<^verbatim>\<open>jsonSent\<close>) is therefore a list of references into a store of
  token objects; the same object may stand at more than one position of the list. Each
  function takes the store and returns the store as it leaves it, also when it raises.
\<close>

type_synonym ref = nat

type_synonym heap = "ref \<Rightarrow> token"

fun addWordIDs_loop :: "nat \<Rightarrow> ref list \<Rightarrow> heap \<Rightarrow> heap \<times> error option" where
  "addWordIDs_loop i [] h = (h, None)"
| "addWordIDs_loop i (r # jsonSent) h =
     (if wordID (h r) \<noteq> None \<and> wordID (h r) \<noteq> Some (int i) then (h, Some AssertionError)
      else addWordIDs_loop (Suc i) jsonSent (h(r := (h r)\<lparr>wordID := Some (int i)\<rparr>)))"

definition addWordIDs :: "heap \<Rightarrow> ref list \<Rightarrow> heap \<times> (error + ref list)" where
  "addWordIDs h jsonSent =
     (case addWordIDs_loop 0 jsonSent h of
        (h', Some e) \<Rightarrow> (h', Inl e)
      | (h', None) \<Rightarrow> (h', Inr jsonSent))"

text \<open>\<^verbatim>\<open>del jsonSent[i]['wordID']\<close> raises \<^verbatim>\<open>KeyError\<close> when the key is absent.\<close>

fun removeWordIDs_loop :: "ref list \<Rightarrow> heap \<Rightarrow> heap \<times> error option" where
  "removeWordIDs_loop [] h = (h, None)"
| "removeWordIDs_loop (r # jsonSent) h =
     (if wordID (h r) = None then (h, Some KeyError)
      else removeWordIDs_loop jsonSent (h(r := (h r)\<lparr>wordID := None\<rparr>)))"

definition removeWordIDs :: "heap \<Rightarrow> ref list \<Rightarrow> heap \<times> (error + ref list)" where
  "removeWordIDs h jsonSent =
     (case removeWordIDs_loop jsonSent h of
        (h', Some e) \<Rightarrow> (h', Inl e)
      | (h', None) \<Rightarrow> (h', Inr jsonSent))"

text \<open>\<^verbatim>\<open>getWordIDrange\<close> only reads the store; the tokens it returns are the same objects.\<close>

fun getWordIDrange_loop ::
  "int \<Rightarrow> int \<Rightarrow> heap \<Rightarrow> ref list \<Rightarrow> ref list \<Rightarrow> error + ref list" where
  "getWordIDrange_loop a b h [] tokens = Inr tokens"
| "getWordIDrange_loop a b h (r # jsonSent) tokens =
     (case wordID (h r) of
        None \<Rightarrow> Inl AssertionError
      | Some w \<Rightarrow>
          getWordIDrange_loop a b h jsonSent
            (if a \<le> w \<and> w < b then tokens @ [r] else tokens))"

definition getWordIDrange :: "int \<Rightarrow> int \<Rightarrow> heap \<Rightarrow> ref list \<Rightarrow> heap \<times> (error + ref list)" where
  "getWordIDrange a b h jsonSent = (h, getWordIDrange_loop a b h jsonSent [])"

section \<open>Separating a sentence into clauses\<close>

text \<open>
  \<^verbatim>\<open>getClausesByClauseIDs\<close>: the first loop asserts that every token has a
  \<^verbatim>\<open>clauseID\<close>; the second fills the dict \<^verbatim>\<open>clauses\<close>, whose keys stay in the order of
  their insertion (Python 3.7 and later). The list \<^verbatim>\<open>clauseIDs\<close> of line 44 is never
  used. Nothing is written to the store.
\<close>

fun clauses_loop ::
  "heap \<Rightarrow> ref list \<Rightarrow> (scalar \<times> ref list) list \<Rightarrow> error + (scalar \<times> ref list) list" where
  "clauses_loop h [] clauses = Inr clauses"
| "clauses_loop h (tokenJson # jsonSent) clauses =
     (case clauseID (h tokenJson) of
        None \<Rightarrow> Inl KeyError
      | Some clauseId \<Rightarrow>
          (let clauses' =
                 (if map_of clauses clauseId = None then dict_set clauseId [] clauses
                  else clauses)
           in case map_of clauses' clauseId of
                None \<Rightarrow> Inl KeyError
              | Some grp \<Rightarrow>
                  clauses_loop h jsonSent (dict_set clauseId (grp @ [tokenJson]) clauses')))"

definition getClausesByClauseIDs ::
  "heap \<Rightarrow> ref list \<Rightarrow> heap \<times> (error + (scalar \<times> ref list) list)" where
  "getClausesByClauseIDs h jsonSent =
     (if list_ex (\<lambda>tokenStruct. clauseID (h tokenStruct) = None) jsonSent
      then (h, Inl AssertionError)
      else (h, clauses_loop h jsonSent []))"

section \<open>Notions of the specification\<close>

text \<open>
  A token-scoped rule passes on a token when its field is present, holds a string, and
  the compiled pattern matches at the start of that string.
\<close>

fun rule_passes :: "token \<Rightarrow> string \<times> pattern \<Rightarrow> bool" where
  "rule_passes tokenJson (field, compiled) =
     (case token_field tokenJson field of
        Some (Scalar (PyStr s)) \<Rightarrow> compiled s
      | _ \<Rightarrow> False)"

text \<open>
  A token-scoped rule fails when its field is absent from the token or its pattern does
  not match a prefix of the field's string value.
\<close>

fun rule_fails :: "token \<Rightarrow> string \<times> pattern \<Rightarrow> bool" where
  "rule_fails tokenJson (field, compiled) =
     (case token_field tokenJson field of
        None \<Rightarrow> True
      | Some (Scalar (PyStr s)) \<Rightarrow> \<not> compiled s
      | _ \<Rightarrow> False)"

text \<open>The field of a token-scoped rule is absent from the token or holds a string.\<close>

fun rule_on_string :: "token \<Rightarrow> string \<times> pattern \<Rightarrow> bool" where
  "rule_on_string tokenJson (field, compiled) =
     (case token_field tokenJson field of
        None \<Rightarrow> True
      | Some (Scalar (PyStr s)) \<Rightarrow> True
      | _ \<Rightarrow> False)"

text \<open>
  An analysis satisfies every analysis-scoped rule, a missing field being matched as the
  empty string.
\<close>

definition satisfies :: "(string \<times> pattern) list \<Rightarrow> analysis \<Rightarrow> bool" where
  "satisfies rules a =
     list_all (\<lambda>(field, compiled). case a field of None \<Rightarrow> compiled '''' | Some v \<Rightarrow> compiled v)
       rules"

text \<open>
  The token-scoped rules of a template, if it has any, all pass on the token. A rule dict
  that exists is never empty: \<open>addRule\<close> creates it for its first rule.
\<close>

definition token_rules_pass :: "template \<Rightarrow> token \<Rightarrow> bool" where
  "token_rules_pass self tokenJson =
     (case otherRules self of
        None \<Rightarrow> True
      | Some rules \<Rightarrow> rules \<noteq> [] \<and> list_all (rule_passes tokenJson) rules)"

text \<open>The values of a list in the order of their first occurrence.\<close>

fun first_occurrences :: "'a list \<Rightarrow> 'a list" where
  "first_occurrences [] = []"
| "first_occurrences (x # xs) = x # filter (\<lambda>y. y \<noteq> x) (first_occurrences xs)"

text \<open>
  A rule dict that exists holds at least one rule: \<open>addRule\<close> creates each dict for the
  rule it is about to store, and nothing removes a rule.
\<close>

definition rule_dicts_nonempty :: "template \<Rightarrow> bool" where
  "rule_dicts_nonempty self = (analysisRules self \<noteq> Some [] \<and> otherRules self \<noteq> Some [])"

text \<open>The \<^verbatim>\<open>wordID\<close> of a token lies in the half-open range from \<open>a\<close> to \<open>b\<close>.\<close>

definition in_range :: "int \<Rightarrow> int \<Rightarrow> heap \<Rightarrow> ref \<Rightarrow> bool" where
  "in_range a b h r = (case wordID (h r) of None \<Rightarrow> False | Some w \<Rightarrow> a \<le> w \<and> w < b)"

text \<open>
  The grouping of a sentence by clause, as the specification describes it: the
  \<^verbatim>\<open>clauseID\<close> values of the sentence in the order of their first occurrence, each with
  the tokens of the sentence that carry it, in sentence order.
\<close>

definition clause_ids :: "heap \<Rightarrow> ref list \<Rightarrow> scalar list" where
  "clause_ids h jsonSent =
     concat (map (\<lambda>r. case clauseID (h r) of None \<Rightarrow> [] | Some c \<Rightarrow> [c]) jsonSent)"

definition clause_group :: "heap \<Rightarrow> ref list \<Rightarrow> scalar \<Rightarrow> ref list" where
  "clause_group h jsonSent c = filter (\<lambda>r. clauseID (h r) = Some c) jsonSent"

definition clause_groups :: "heap \<Rightarrow> ref list \<Rightarrow> (scalar \<times> ref list) list" where
  "clause_groups h jsonSent =
     map (\<lambda>c. (c, clause_group h jsonSent c)) (first_occurrences (clause_ids h jsonSent))"

section \<open>Example inputs\<close>

text \<open>
  Rule sets as \<^verbatim>\<open>WordTemplate\<close> builds them from \<^verbatim>\<open>{"partofspeech": "S"}\<close>,
  \<^verbatim>\<open>{"text": "abc", "partofspeech": "S"}\<close>, \<^verbatim>\<open>{"text": "abc"}\<close> and
  \<^verbatim>\<open>{"text": "abc", "wordID": "0", "partofspeech": "S"}\<close>.
\<close>

definition pos_S :: template where
  "pos_S = \<lparr>analysisRules = Some [(''partofspeech'', literal ''S'')], otherRules = None\<rparr>"

definition text_abc_pos_S :: template where
  "text_abc_pos_S =
     \<lparr>analysisRules = Some [(''partofspeech'', literal ''S'')],
      otherRules = Some [(''text'', literal ''abc'')]\<rparr>"

definition text_abc :: template where
  "text_abc = \<lparr>analysisRules = None, otherRules = Some [(''text'', literal ''abc'')]\<rparr>"

definition text_abc_wordID :: template where
  "text_abc_wordID =
     \<lparr>analysisRules = Some [(''partofspeech'', literal ''S'')],
      otherRules = Some [(''text'', literal ''abc''), (''wordID'', literal ''0'')]\<rparr>"

text \<open>
  The token \<^verbatim>\<open>{"text": s, "analysis": as}\<close> (without the key \<^verbatim>\<open>analysis\<close> when
  \<open>as\<close> is \<open>None\<close>), and the analysis \<^verbatim>\<open>{"partofspeech": p}\<close>.
\<close>

definition word :: "string \<Rightarrow> analysis list option \<Rightarrow> token" where
  "word s as = \<lparr>analysis = as, wordID = None, clauseID = None, other = [''text'' \<mapsto> PyStr s]\<rparr>"

definition pos :: "string \<Rightarrow> analysis" where
  "pos p = [''partofspeech'' \<mapsto> p]"

text \<open>
  The empty token \<^verbatim>\<open>{}\<close>, the store in which every object is one, and the tokens
  \<^verbatim>\<open>{"wordID": w}\<close> and \<^verbatim>\<open>{"clauseID": c}\<close>.
\<close>

definition blank :: token where
  "blank = \<lparr>analysis = None, wordID = None, clauseID = None, other = Map.empty\<rparr>"

definition blank_heap :: heap where
  "blank_heap = (\<lambda>r. blank)"

definition numbered :: "int \<Rightarrow> token" where
  "numbered w = blank\<lparr>wordID := Some w\<rparr>"

definition in_clause :: "scalar \<Rightarrow> token" where
  "in_clause c = blank\<lparr>clauseID := Some c\<rparr>"

text \<open>
  A store for the sentence \<^verbatim>\<open>[t, t, v, u]\<close>, written \<open>[0, 0, 1, 2]\<close>: the object \<open>t\<close>
  stands at two positions, \<open>t\<close> and \<open>v\<close> have a \<^verbatim>\<open>wordID\<close>, \<open>u\<close> has none.
\<close>

definition aliased_heap :: heap where
  "aliased_heap = blank_heap(0 := numbered 0, 1 := numbered 2)"

section \<open>Properties of the matcher\<close>

subsection \<open>The rule set\<close>

lemma WordTemplate_no_rules: "WordTemplate re_compile [] = Inr new_template"
  by (simp add: WordTemplate_def)

lemma dict_set_nonempty: "dict_set k v d \<noteq> []"
  by (cases d) (auto split: if_splits)

lemma addRule_nonempty:
  "addRule re_compile self field regExpPattern = Inr self' \<Longrightarrow>
   rule_dicts_nonempty self \<Longrightarrow> rule_dicts_nonempty self'"
  by (auto simp: addRule_def rule_dicts_nonempty_def dict_set_nonempty
      split: option.splits if_splits)

lemma addRules_nonempty:
  "addRules re_compile self newRules = Inr self' \<Longrightarrow>
   rule_dicts_nonempty self \<Longrightarrow> rule_dicts_nonempty self'"
proof (induction newRules arbitrary: self)
  case Nil
  then show ?case by simp
next
  case (Cons rule newRules)
  obtain ruleKey regExpPattern where rule: "rule = (ruleKey, regExpPattern)"
    by (cases rule)
  from Cons.prems(1) obtain mid where
    mid: "addRule re_compile self ruleKey regExpPattern = Inr mid"
    and rest: "addRules re_compile mid newRules = Inr self'"
    by (auto simp: rule split: sum.splits)
  from addRule_nonempty [OF mid Cons.prems(2)] Cons.IH [OF rest] show ?case
    by simp
qed

lemma WordTemplate_nonempty:
  "WordTemplate re_compile newRules = Inr self \<Longrightarrow> rule_dicts_nonempty self"
  unfolding WordTemplate_def
  by (erule addRules_nonempty) (simp add: rule_dicts_nonempty_def new_template_def)

text \<open>The rule sets of the examples are what the constructor builds.\<close>

lemma WordTemplate_examples:
  "WordTemplate (\<lambda>p. Some (literal p)) [(''partofspeech'', ''S'')] = Inr pos_S"
  "WordTemplate (\<lambda>p. Some (literal p)) [(''text'', ''abc''), (''partofspeech'', ''S'')]
     = Inr text_abc_pos_S"
  "WordTemplate (\<lambda>p. Some (literal p)) [(''text'', ''abc'')] = Inr text_abc"
  "WordTemplate (\<lambda>p. Some (literal p))
     [(''text'', ''abc''), (''wordID'', ''0''), (''partofspeech'', ''S'')] = Inr text_abc_wordID"
  by (simp_all add: WordTemplate_def addRule_def analysisFields_def new_template_def
      pos_S_def text_abc_pos_S_def text_abc_def text_abc_wordID_def)

subsection \<open>The two rule loops\<close>

lemma py_all_append: "py_all (xs @ ys) = (py_all xs \<and> py_all ys)"
  by (simp add: py_all_def)

lemma py_all_replicate_True: "py_all (replicate n True)"
  by (simp add: py_all_def list_all_iff)

lemma otherMatches_loop_strings:
  "list_all (rule_on_string t) rules \<Longrightarrow>
   otherMatches_loop t rules acc = Inr (acc @ map (\<lambda>r. \<not> rule_fails t r) rules)"
proof (induction rules arbitrary: acc)
  case Nil
  then show ?case by simp
next
  case (Cons r rules)
  obtain field compiled where r: "r = (field, compiled)" by (cases r)
  from Cons.prems have rest: "list_all (rule_on_string t) rules" by simp
  from Cons.prems r show ?case
    by (auto simp: Cons.IH [OF rest] re_match_def split: option.splits field_value.splits scalar.splits)
qed

lemma rule_passes_on_string: "rule_passes t r \<Longrightarrow> rule_on_string t r"
  by (cases r) (auto split: option.splits field_value.splits scalar.splits)

lemma rule_passes_not_fails: "rule_passes t r \<Longrightarrow> \<not> rule_fails t r"
  by (cases r) (auto split: option.splits field_value.splits scalar.splits)

lemma otherMatches_loop_pass:
  assumes "list_all (rule_passes t) rules"
  shows "otherMatches_loop t rules [] = Inr (replicate (length rules) True)"
proof -
  from assms have s: "list_all (rule_on_string t) rules"
    by (simp add: list_all_iff rule_passes_on_string)
  from assms have "map (\<lambda>r. \<not> rule_fails t r) rules = replicate (length rules) True"
    by (induction rules) (auto simp: rule_passes_not_fails)
  with otherMatches_loop_strings [OF s, of "[]"] show ?thesis by simp
qed

lemma py_all_matches_loop:
  "py_all (matches_loop a rules ms) = (py_all ms \<and> satisfies rules a)"
proof (induction rules arbitrary: ms)
  case Nil
  then show ?case by (simp add: satisfies_def)
next
  case (Cons r rules)
  obtain field compiled where r: "r = (field, compiled)" by (cases r)
  show ?case
    using Cons.IH [of "ms @ [True]"]
    by (auto simp: r Let_def py_all_append satisfies_def analysis_value_def py_all_def split: option.splits)
qed

lemma matches_analysis_rules:
  "analysisRules self = Some rules \<Longrightarrow> analysis t = Some analyses \<Longrightarrow>
   matches_analysis self t = Inr (list_ex (satisfies rules) analyses)"
  by (simp add: matches_analysis_def py_any_def py_all_matches_loop list_ex_iff) (simp add: py_all_def)

lemma matches_when_token_rules_pass:
  assumes "token_rules_pass self t"
  shows "matches self t = (if analysisRules self = None \<and> otherRules self \<noteq> None then Inr True else matches_analysis self t)"
proof (cases "otherRules self")
  case None
  then show ?thesis by (simp add: matches_def)
next
  case (Some rules)
  with assms have ne: "rules \<noteq> []" and p: "list_all (rule_passes t) rules"
    by (simp_all add: token_rules_pass_def)
  show ?thesis
    using Some ne by (simp add: matches_def otherMatches_loop_pass [OF p] py_all_replicate_True)
qed

lemma matchingAnalyses_when_token_rules_pass:
  assumes "token_rules_pass self t"
  shows "matchingAnalyses self t = matchingAnalyses_analysis self t"
proof (cases "otherRules self")
  case None
  then show ?thesis by (simp add: matchingAnalyses_def)
next
  case (Some rules)
  with assms have ne: "rules \<noteq> []" and p: "list_all (rule_passes t) rules"
    by (simp_all add: token_rules_pass_def)
  show ?thesis
    using Some ne by (simp add: matchingAnalyses_def otherMatches_loop_pass [OF p] py_all_replicate_True)
qed

lemmas ex_defs = pos_S_def text_abc_pos_S_def text_abc_def text_abc_wordID_def word_def pos_def
  literal_def token_field_def token_rules_pass_def satisfies_def

subsection \<open>Single tokens\<close>

text \<open>
  Claim C1 (existential matching over ambiguous analyses): for a token that carries an
  \<^verbatim>\<open>analysis\<close> list and a rule set with analysis-scoped rules whose token-scoped rules,
  if it has any, all pass on the token, \<open>matches\<close> returns \<^verbatim>\<open>True\<close> if and only if at
  least one entry of the list satisfies every analysis-scoped rule, a missing field of
  an entry being matched as the empty string. It is not required that all entries do.
\<close>

theorem matches_existential:
  assumes "analysisRules self = Some rules"
    and "analysis tokenJson = Some analyses"
    and "token_rules_pass self tokenJson"
  shows "matches self tokenJson = Inr (list_ex (satisfies rules) analyses)"
  using assms by (simp add: matches_when_token_rules_pass matches_analysis_rules)

text \<open>
  The ambiguity law of the specification: of the analyses \<^verbatim>\<open>V\<close> and \<^verbatim>\<open>S\<close>, one
  satisfies \<^verbatim>\<open>{"partofspeech": "S"}\<close>, and the token matches.
\<close>

theorem matches_existential_witness:
  "matches pos_S (word ''abc'' (Some [pos ''V'', pos ''S''])) = Inr True"
  using matches_existential [of pos_S "[(''partofspeech'', literal ''S'')]"
      "word ''abc'' (Some [pos ''V'', pos ''S''])" "[pos ''V'', pos ''S'']"]
  by (simp add: ex_defs)

text \<open>
  Claim C2 (token-scoped gating), as amended: when a token-scoped rule fails on the token
  (its field is absent, or its pattern does not match a prefix of the field's string
  value) and every token-scoped rule's field that is present on the token holds a string,
  \<open>matches\<close> returns \<^verbatim>\<open>False\<close>, whatever the analysis-scoped rules and the token's
  analyses are.
\<close>

theorem matches_token_gate:
  assumes "otherRules self = Some rules"
    and "list_ex (rule_fails tokenJson) rules"
    and "list_all (rule_on_string tokenJson) rules"
  shows "matches self tokenJson = Inr False"
proof -
  from assms(2) have "\<not> py_all (map (\<lambda>r. \<not> rule_fails tokenJson r) rules)"
    by (auto simp: py_all_def list_all_iff list_ex_iff)
  then show ?thesis
    using assms(1) by (simp add: matches_def otherMatches_loop_strings [OF assms(3)])
qed

theorem matches_token_gate_witness:
  "matches text_abc_pos_S (word ''xyz'' (Some [pos ''S''])) = Inr False"
  using matches_token_gate [of text_abc_pos_S "[(''text'', literal ''abc'')]"
      "word ''xyz'' (Some [pos ''S''])"]
  by (simp add: ex_defs)

text \<open>
  The claim as stated, for every token, does not hold: the loop over the token-scoped
  rules tries every rule, and \<^verbatim>\<open>pattern.match\<close> raises \<^verbatim>\<open>TypeError\<close> on a field that
  is not a string. On the token \<^verbatim>\<open>{"text": "xyz", "wordID": 0, "analysis": [...]}\<close> the
  rule on \<^verbatim>\<open>text\<close> fails, and \<open>matches\<close> raises on the rule for \<^verbatim>\<open>wordID\<close> instead of
  returning \<^verbatim>\<open>False\<close>.
\<close>

theorem matches_token_gate_counterexample:
  "otherRules text_abc_wordID = Some [(''text'', literal ''abc''), (''wordID'', literal ''0'')]
   \<and> rule_fails (word ''xyz'' (Some [pos ''S''])\<lparr>wordID := Some 0\<rparr>) (''text'', literal ''abc'')
   \<and> matches text_abc_wordID (word ''xyz'' (Some [pos ''S''])\<lparr>wordID := Some 0\<rparr>) = Inl TypeError"
  by (simp add: ex_defs matches_def re_match_def)

text \<open>
  Claim C3 (missing-analysis contract), as amended: for a rule set with analysis-scoped
  rules whose token-scoped rules, if it has any, all pass on the token, \<open>matches\<close> on a
  token without the key \<^verbatim>\<open>analysis\<close> fails its assertion and returns no boolean.
\<close>

theorem matches_missing_analysis:
  assumes "analysisRules self = Some rules"
    and "analysis tokenJson = None"
    and "token_rules_pass self tokenJson"
  shows "matches self tokenJson = Inl AssertionError"
  using assms by (simp add: matches_when_token_rules_pass matches_analysis_def)

theorem matches_missing_analysis_witness:
  "matches text_abc_pos_S (word ''abcd'' None) = Inl AssertionError"
  using matches_missing_analysis [of text_abc_pos_S "[(''partofspeech'', literal ''S'')]"
      "word ''abcd'' None"]
  by (simp add: ex_defs)

text \<open>
  Without the condition on the token-scoped rules the claim fails: they are checked first
  (lines 136-142), and a failing one makes \<open>matches\<close> return \<^verbatim>\<open>False\<close> before the
  assertion of line 146 is reached.
\<close>

theorem matches_missing_analysis_counterexample:
  "analysisRules text_abc_pos_S = Some [(''partofspeech'', literal ''S'')]
   \<and> analysis (word ''xyz'' None) = None
   \<and> matches text_abc_pos_S (word ''xyz'' None) = Inr False"
  by (simp add: ex_defs matches_def re_match_def py_all_def)

text \<open>
  Claim C4 (asymmetry between \<open>matches\<close> and \<open>matchingAnalyses\<close>): when the rule set has
  token-scoped rules, all of which pass on the token, and no analysis-scoped rule,
  \<open>matchingAnalyses\<close> returns the empty list and \<open>matches\<close> returns \<^verbatim>\<open>True\<close>.
\<close>

theorem matchingAnalyses_matches_asymmetry:
  assumes "otherRules self = Some rules" and "rules \<noteq> []"
    and "list_all (rule_passes tokenJson) rules"
    and "analysisRules self = None"
  shows "matchingAnalyses self tokenJson = Inr [] \<and> matches self tokenJson = Inr True"
proof -
  from assms have p: "token_rules_pass self tokenJson"
    by (simp add: token_rules_pass_def)
  show ?thesis
    using assms(1,4)
    by (simp add: matches_when_token_rules_pass [OF p] matchingAnalyses_when_token_rules_pass [OF p]
        matchingAnalyses_analysis_def)
qed

theorem matchingAnalyses_matches_asymmetry_witness:
  "matchingAnalyses text_abc (word ''abcd'' (Some [pos ''S''])) = Inr []
   \<and> matches text_abc (word ''abcd'' (Some [pos ''S''])) = Inr True"
  using matchingAnalyses_matches_asymmetry [of text_abc "[(''text'', literal ''abc'')]"
      "word ''abcd'' (Some [pos ''S''])"]
  by (simp add: ex_defs)

text \<open>
  Claim C5 (empty-rule-set law): on a rule set in which neither the analysis-scoped nor
  the token-scoped partition holds any rule, that is, the template as
  \<^verbatim>\<open>WordTemplate({})\<close> leaves it, with both rule dicts still \<^verbatim>\<open>None\<close>,
  \<open>matches\<close> returns \<^verbatim>\<open>False\<close> for every token.
\<close>

theorem matches_empty_rule_set: "matches new_template tokenJson = Inr False"
  by (simp add: matches_def matches_analysis_def new_template_def)

subsection \<open>Lists of tokens\<close>






section \<open>Properties of the indexing functions\<close>

subsection \<open>\<^verbatim>\<open>addWordIDs\<close>\<close>

lemma addWordIDs_loop_consistent:
  assumes "distinct jsonSent"
    and "\<forall>j<length jsonSent. wordID (h (jsonSent ! j)) = None
           \<or> wordID (h (jsonSent ! j)) = Some (int (i + j))"
  shows "\<exists>h'. addWordIDs_loop i jsonSent h = (h', None)
           \<and> (\<forall>j<length jsonSent. h' (jsonSent ! j) = (h (jsonSent ! j))\<lparr>wordID := Some (int (i + j))\<rparr>)
           \<and> (\<forall>r. r \<notin> set jsonSent \<longrightarrow> h' r = h r)"
  using assms
proof (induction jsonSent arbitrary: i h)
  case Nil
  then show ?case by simp
next
  case (Cons r rest)
  let ?h1 = "h(r := (h r)\<lparr>wordID := Some (int i)\<rparr>)"
  from Cons.prems(1) have d: "distinct rest" and nr: "r \<notin> set rest" by simp_all
  from Cons.prems(2) [rule_format, of 0]
  have r0: "wordID (h r) = None \<or> wordID (h r) = Some (int i)" by simp
  have pre: "\<forall>j<length rest. wordID (?h1 (rest ! j)) = None
               \<or> wordID (?h1 (rest ! j)) = Some (int (Suc i + j))"
  proof (intro allI impI)
    fix j assume j: "j < length rest"
    then have "rest ! j \<noteq> r" using nr by (metis nth_mem)
    moreover from Cons.prems(2) [rule_format, of "Suc j"] j
    have "wordID (h (rest ! j)) = None \<or> wordID (h (rest ! j)) = Some (int (i + Suc j))"
      by simp
    ultimately show "wordID (?h1 (rest ! j)) = None
               \<or> wordID (?h1 (rest ! j)) = Some (int (Suc i + j))"
      by simp
  qed
  from Cons.IH [OF d pre] obtain h' where
    run: "addWordIDs_loop (Suc i) rest ?h1 = (h', None)"
    and upd: "\<forall>j<length rest. h' (rest ! j) = (?h1 (rest ! j))\<lparr>wordID := Some (int (Suc i + j))\<rparr>"
    and frame: "\<forall>r'. r' \<notin> set rest \<longrightarrow> h' r' = ?h1 r'"
    by blast
  have step: "addWordIDs_loop i (r # rest) h = (h', None)"
    using r0 run by auto
  have "h' ((r # rest) ! j) = (h ((r # rest) ! j))\<lparr>wordID := Some (int (i + j))\<rparr>"
    if "j < length (r # rest)" for j
  proof (cases j)
    case 0
    with frame nr show ?thesis by simp
  next
    case (Suc j')
    with that have j': "j' < length rest" by simp
    then have "rest ! j' \<noteq> r" using nr by (metis nth_mem)
    with upd j' Suc show ?thesis by simp
  qed
  moreover have "h' r' = h r'" if "r' \<notin> set (r # rest)" for r'
    using that frame by simp
  ultimately show ?case using step by blast
qed

text \<open>
  Claim C7 (indexer postcondition and idempotence), as amended: on a sentence of pairwise
  distinct token objects none of which carries a \<^verbatim>\<open>wordID\<close>, \<open>addWordIDs\<close> returns the
  sentence, the token at each position \<open>i\<close> then has \<^verbatim>\<open>wordID == i\<close>, and a second call
  on the result succeeds and leaves the store as it is.
\<close>

theorem addWordIDs_fresh:
  assumes "distinct jsonSent"
    and "\<forall>r\<in>set jsonSent. wordID (h r) = None"
  shows "snd (addWordIDs h jsonSent) = Inr jsonSent
    \<and> (\<forall>i<length jsonSent. wordID (fst (addWordIDs h jsonSent) (jsonSent ! i)) = Some (int i))
    \<and> addWordIDs (fst (addWordIDs h jsonSent)) jsonSent
        = (fst (addWordIDs h jsonSent), Inr jsonSent)"
proof -
  from assms(2) have p1: "\<forall>j<length jsonSent. wordID (h (jsonSent ! j)) = None
           \<or> wordID (h (jsonSent ! j)) = Some (int (0 + j))"
    by simp
  from addWordIDs_loop_consistent [OF assms(1) p1] obtain h' where
    run: "addWordIDs_loop 0 jsonSent h = (h', None)"
    and upd: "\<forall>j<length jsonSent. h' (jsonSent ! j) = (h (jsonSent ! j))\<lparr>wordID := Some (int (0 + j))\<rparr>"
    by blast
  from upd have ids: "\<forall>j<length jsonSent. wordID (h' (jsonSent ! j)) = Some (int j)"
    by simp
  then have p2: "\<forall>j<length jsonSent. wordID (h' (jsonSent ! j)) = None
           \<or> wordID (h' (jsonSent ! j)) = Some (int (0 + j))"
    by simp
  from addWordIDs_loop_consistent [OF assms(1) p2] obtain h'' where
    run2: "addWordIDs_loop 0 jsonSent h' = (h'', None)"
    and upd2: "\<forall>j<length jsonSent. h'' (jsonSent ! j) = (h' (jsonSent ! j))\<lparr>wordID := Some (int (0 + j))\<rparr>"
    and frame2: "\<forall>r. r \<notin> set jsonSent \<longrightarrow> h'' r = h' r"
    by blast
  have "h'' r = h' r" for r
  proof (cases "r \<in> set jsonSent")
    case True
    then obtain j where j: "j < length jsonSent" "jsonSent ! j = r"
      by (auto simp: in_set_conv_nth)
    with upd2 ids show ?thesis by auto
  next
    case False
    with frame2 show ?thesis by simp
  qed
  then have "h'' = h'" by (rule ext)
  with run run2 ids show ?thesis by (simp add: addWordIDs_def)
qed

theorem addWordIDs_fresh_witness:
  "snd (addWordIDs blank_heap [5, 3, 4]) = Inr [5, 3, 4]
   \<and> wordID (fst (addWordIDs blank_heap [5, 3, 4]) 3) = Some 1"
  using addWordIDs_fresh [of "[5, 3, 4]" blank_heap]
  by (simp add: blank_heap_def blank_def addWordIDs_def)

text \<open>
  Without the distinctness the claim fails: \<^verbatim>\<open>addWordIDs\<close> writes into the token
  objects, so in the sentence \<^verbatim>\<open>[t, t]\<close>, where the one object \<^verbatim>\<open>t = {}\<close> stands at
  both positions, \<open>t\<close> has the \<^verbatim>\<open>wordID\<close> 0 when position 1 is reached, and the
  assertion of line 18 fails.
\<close>

theorem addWordIDs_fresh_counterexample:
  "wordID (blank_heap 0) = None
   \<and> snd (addWordIDs blank_heap [0, 0]) = Inl AssertionError"
  by (simp add: blank_heap_def blank_def addWordIDs_def)

subsection \<open>\<^verbatim>\<open>getWordIDrange\<close>\<close>

lemma getWordIDrange_loop_filter:
  "\<forall>r\<in>set jsonSent. wordID (h r) \<noteq> None \<Longrightarrow>
   getWordIDrange_loop a b h jsonSent tokens = Inr (tokens @ filter (in_range a b h) jsonSent)"
  by (induction jsonSent arbitrary: tokens) (auto simp: in_range_def)

text \<open>
  Claim C8 (range extraction): on a sentence in which every token carries a \<^verbatim>\<open>wordID\<close>,
  \<open>getWordIDrange a b\<close> returns exactly the tokens with \<open>a \<le> wordID < b\<close>, in their original
  order; the range from \<open>k\<close> to \<open>k\<close> is empty, and on a sentence whose token at each
  position \<open>i\<close> has the \<^verbatim>\<open>wordID\<close> \<open>i\<close> the range from 0 to the length of the sentence
  is the sentence itself.
\<close>

theorem getWordIDrange_filter:
  assumes "\<forall>r\<in>set jsonSent. wordID (h r) \<noteq> None"
  shows "getWordIDrange a b h jsonSent = (h, Inr (filter (in_range a b h) jsonSent))
    \<and> getWordIDrange k k h jsonSent = (h, Inr [])
    \<and> ((\<forall>i<length jsonSent. wordID (h (jsonSent ! i)) = Some (int i)) \<longrightarrow>
         getWordIDrange 0 (int (length jsonSent)) h jsonSent = (h, Inr jsonSent))"
proof -
  have 1: "getWordIDrange a b h jsonSent = (h, Inr (filter (in_range a b h) jsonSent))" for a b
    using getWordIDrange_loop_filter [OF assms] by (simp add: getWordIDrange_def)
  have 2: "filter (in_range k k h) jsonSent = []"
    by (auto simp: in_range_def filter_empty_conv split: option.splits)
  have 3: "filter (in_range 0 (int (length jsonSent)) h) jsonSent = jsonSent"
    if c: "\<forall>i<length jsonSent. wordID (h (jsonSent ! i)) = Some (int i)"
  proof -
    have "in_range 0 (int (length jsonSent)) h r" if "r \<in> set jsonSent" for r
    proof -
      from that obtain i where "i < length jsonSent" "jsonSent ! i = r"
        by (auto simp: in_set_conv_nth)
      with c show ?thesis by (auto simp: in_range_def)
    qed
    then show ?thesis by (simp add: filter_id_conv)
  qed
  from 1 2 3 show ?thesis by simp
qed

theorem getWordIDrange_filter_witness:
  "getWordIDrange 1 3 (blank_heap(0 := numbered 0, 1 := numbered 1, 2 := numbered 2, 3 := numbered 3))
     [0, 1, 2, 3] = (blank_heap(0 := numbered 0, 1 := numbered 1, 2 := numbered 2, 3 := numbered 3), Inr [1, 2])
   \<and> getWordIDrange 0 4 (blank_heap(0 := numbered 0, 1 := numbered 1, 2 := numbered 2, 3 := numbered 3))
     [0, 1, 2, 3] = (blank_heap(0 := numbered 0, 1 := numbered 1, 2 := numbered 2, 3 := numbered 3), Inr [0, 1, 2, 3])"
  using getWordIDrange_filter [of "[0, 1, 2, 3]"
      "blank_heap(0 := numbered 0, 1 := numbered 1, 2 := numbered 2, 3 := numbered 3)" 1 3 0]
  by (simp add: blank_heap_def blank_def numbered_def in_range_def nth_Cons' less_Suc_eq_0_disj)

subsection \<open>\<^verbatim>\<open>removeWordIDs\<close>\<close>

lemma removeWordIDs_loop_prefix:
  assumes "distinct pre" and "\<forall>r\<in>set pre. wordID (h r) \<noteq> None" and "wordID (h x) = None"
  shows "removeWordIDs_loop (pre @ x # post) h
         = (\<lambda>r. if r \<in> set pre then (h r)\<lparr>wordID := None\<rparr> else h r, Some KeyError)"
  using assms
proof (induction pre arbitrary: h)
  case Nil
  then show ?case by simp
next
  case (Cons p pre)
  let ?h1 = "h(p := (h p)\<lparr>wordID := None\<rparr>)"
  from Cons.prems have d: "distinct pre" and np: "p \<notin> set pre"
    and has: "wordID (h p) \<noteq> None" by simp_all
  from Cons.prems np have a: "\<forall>r\<in>set pre. wordID (?h1 r) \<noteq> None" by auto
  from Cons.prems have b: "wordID (?h1 x) = None" by simp
  have step: "removeWordIDs_loop ((p # pre) @ x # post) h
              = removeWordIDs_loop (pre @ x # post) ?h1"
    using has by (cases "wordID (h p)") simp_all
  have same: "(\<lambda>r. if r \<in> set pre then (?h1 r)\<lparr>wordID := None\<rparr> else ?h1 r)
        = (\<lambda>r. if r \<in> set (p # pre) then (h r)\<lparr>wordID := None\<rparr> else h r)"
    using np by (auto simp: fun_eq_iff)
  show ?case
    unfolding step Cons.IH [OF d a b] same by (rule refl)
qed

text \<open>
  Claim C10 (\<^verbatim>\<open>removeWordIDs\<close> is not atomic on failure), as amended: when the first token
  without a \<^verbatim>\<open>wordID\<close> stands at position \<open>k > 0\<close> and the tokens before it are pairwise
  distinct objects, \<open>removeWordIDs\<close> raises \<^verbatim>\<open>KeyError\<close>, and the store it leaves has
  the \<^verbatim>\<open>wordID\<close> removed from exactly the tokens at the positions before \<open>k\<close>: it is not
  the store the call started from.
\<close>

theorem removeWordIDs_not_atomic:
  assumes "k < length jsonSent" and "0 < k"
    and "wordID (h (jsonSent ! k)) = None"
    and "\<forall>i<k. wordID (h (jsonSent ! i)) \<noteq> None"
    and "distinct (take k jsonSent)"
  shows "removeWordIDs h jsonSent
           = (\<lambda>r. if r \<in> set (take k jsonSent) then (h r)\<lparr>wordID := None\<rparr> else h r, Inl KeyError)
    \<and> (\<forall>i<k. wordID (fst (removeWordIDs h jsonSent) (jsonSent ! i)) = None)
    \<and> fst (removeWordIDs h jsonSent) \<noteq> h"
proof -
  let ?pre = "take k jsonSent"
  let ?h' = "\<lambda>r. if r \<in> set ?pre then (h r)\<lparr>wordID := None\<rparr> else h r"
  have split: "jsonSent = ?pre @ jsonSent ! k # drop (Suc k) jsonSent"
    using assms(1) by (simp add: id_take_nth_drop)
  have pre: "\<forall>r\<in>set ?pre. wordID (h r) \<noteq> None"
    using assms(1,4) by (auto simp: in_set_conv_nth)
  have "removeWordIDs_loop (?pre @ jsonSent ! k # drop (Suc k) jsonSent) h = (?h', Some KeyError)"
    by (rule removeWordIDs_loop_prefix [OF assms(5) pre assms(3)])
  with split have loop: "removeWordIDs_loop jsonSent h = (?h', Some KeyError)" by simp
  then have res: "removeWordIDs h jsonSent = (?h', Inl KeyError)"
    by (simp add: removeWordIDs_def)
  have cleared: "wordID (?h' (jsonSent ! i)) = None" if "i < k" for i
  proof -
    from that assms(1) have "jsonSent ! i \<in> set ?pre"
      by (auto simp: in_set_conv_nth intro!: exI [of _ i])
    then show ?thesis by simp
  qed
  have "?h' \<noteq> h"
  proof
    assume "?h' = h"
    then have "?h' (jsonSent ! 0) = h (jsonSent ! 0)" by (rule fun_cong)
    then have "wordID (?h' (jsonSent ! 0)) = wordID (h (jsonSent ! 0))" by (rule arg_cong)
    with cleared [OF assms(2)] have "wordID (h (jsonSent ! 0)) = None" by (simp only:)
    with assms(4) [rule_format, OF assms(2)] show False by blast
  qed
  with res cleared show ?thesis by simp
qed

theorem removeWordIDs_not_atomic_witness:
  "snd (removeWordIDs (blank_heap(0 := numbered 0, 1 := numbered 1)) [0, 1, 2, 3]) = Inl KeyError
   \<and> wordID (fst (removeWordIDs (blank_heap(0 := numbered 0, 1 := numbered 1)) [0, 1, 2, 3]) 0) = None
   \<and> wordID (fst (removeWordIDs (blank_heap(0 := numbered 0, 1 := numbered 1)) [0, 1, 2, 3]) 1) = None"
proof -
  let ?h = "blank_heap(0 := numbered 0, 1 := numbered 1)"
  let ?s = "[0, 1, 2, 3] :: ref list"
  have a: "2 < length ?s" by simp
  have b: "(0::nat) < 2" by simp
  have c: "wordID (?h (?s ! 2)) = None"
    by (simp add: blank_heap_def blank_def)
  have d: "\<forall>i<2. wordID (?h (?s ! i)) \<noteq> None"
    by (auto simp: numbered_def dest!: less_2_cases)
  have e: "distinct (take 2 ?s)" by simp
  from removeWordIDs_not_atomic [OF a b c d e]
  have "removeWordIDs ?h ?s
          = (\<lambda>r. if r \<in> set (take 2 ?s) then (?h r)\<lparr>wordID := None\<rparr> else ?h r, Inl KeyError)"
    by (rule conjunct1)
  then show ?thesis by simp
qed

text \<open>
  Without the distinctness the claim fails. In the sentence \<^verbatim>\<open>[t, t, v, u]\<close>, where
  \<open>t\<close> and \<open>v\<close> carry a \<^verbatim>\<open>wordID\<close> and \<open>u\<close> does not, the first token without
  \<^verbatim>\<open>wordID\<close> stands at position 3; the call fails at position 1, where \<open>t\<close> has lost
  its \<^verbatim>\<open>wordID\<close> already, and the token \<open>v\<close> at position 2 still has its own.
\<close>

theorem removeWordIDs_not_atomic_counterexample:
  "wordID (aliased_heap ([0, 0, 1, 2] ! 0)) = Some 0
   \<and> wordID (aliased_heap ([0, 0, 1, 2] ! 1)) = Some 0
   \<and> wordID (aliased_heap ([0, 0, 1, 2] ! 2)) = Some 2
   \<and> wordID (aliased_heap ([0, 0, 1, 2] ! 3)) = None
   \<and> snd (removeWordIDs aliased_heap [0, 0, 1, 2]) = Inl KeyError
   \<and> wordID (fst (removeWordIDs aliased_heap [0, 0, 1, 2]) ([0, 0, 1, 2] ! 2)) = Some 2"
  by (simp add: aliased_heap_def blank_heap_def blank_def numbered_def removeWordIDs_def)

section \<open>Properties of the clause grouping\<close>

lemma set_first_occurrences: "set (first_occurrences xs) = set xs"
  by (induction xs) auto

lemma distinct_first_occurrences: "distinct (first_occurrences xs)"
  by (induction xs) (auto simp: set_first_occurrences)

lemma first_occurrences_snoc:
  "first_occurrences (xs @ [x])
   = (if x \<in> set xs then first_occurrences xs else first_occurrences xs @ [x])"
proof (induction xs)
  case Nil
  then show ?case by simp
next
  case (Cons y xs)
  then show ?case by (auto simp: set_first_occurrences)
qed

lemma map_of_keyed:
  "map_of (map (\<lambda>k. (k, f k)) ks) c = (if c \<in> set ks then Some (f c) else None)"
  by (induction ks) auto

lemma dict_set_new: "c \<notin> fst ` set d \<Longrightarrow> dict_set c v d = d @ [(c, v)]"
  by (induction d) auto

lemma dict_set_last: "c \<notin> fst ` set d \<Longrightarrow> dict_set c v (d @ [(c, w)]) = d @ [(c, v)]"
  by (induction d) auto

lemma dict_set_keyed:
  "distinct ks \<Longrightarrow> c \<in> set ks \<Longrightarrow>
   dict_set c v (map (\<lambda>k. (k, f k)) ks) = map (\<lambda>k. (k, if k = c then v else f k)) ks"
proof (induction ks)
  case Nil
  then show ?case by simp
next
  case (Cons k ks)
  show ?case
  proof (cases "k = c")
    case True
    with Cons.prems have "c \<notin> set ks" by simp
    then have "map (\<lambda>k. (k, f k)) ks = map (\<lambda>k. (k, if k = c then v else f k)) ks"
      by (intro map_cong) auto
    with True show ?thesis by simp
  next
    case False
    with Cons show ?thesis by simp
  qed
qed

lemma clause_ids_snoc:
  "clause_ids h (xs @ [y]) = clause_ids h xs @ (case clauseID (h y) of None \<Rightarrow> [] | Some c \<Rightarrow> [c])"
  by (simp add: clause_ids_def)

lemma clause_group_empty:
  "c \<notin> set (clause_ids h xs) \<Longrightarrow> clause_group h xs c = []"
  by (induction xs) (auto simp: clause_ids_def clause_group_def split: option.splits)

lemma clause_groups_snoc:
  assumes "clauseID (h y) = Some c"
  shows "clause_groups h (xs @ [y])
         = (if c \<in> set (clause_ids h xs)
            then map (\<lambda>k. (k, if k = c then clause_group h xs c @ [y] else clause_group h xs k))
                   (first_occurrences (clause_ids h xs))
            else clause_groups h xs @ [(c, [y])])"
proof (cases "c \<in> set (clause_ids h xs)")
  case True
  have "clause_group h (xs @ [y]) k = (if k = c then clause_group h xs c @ [y] else clause_group h xs k)" for k
    using assms by (auto simp: clause_group_def)
  with True assms show ?thesis
    by (simp add: clause_groups_def clause_ids_snoc first_occurrences_snoc)
next
  case False
  have "clause_group h (xs @ [y]) k = clause_group h xs k" if "k \<in> set (clause_ids h xs)" for k
    using assms that False by (auto simp: clause_group_def)
  then have "map (\<lambda>k. (k, clause_group h (xs @ [y]) k)) (first_occurrences (clause_ids h xs))
           = map (\<lambda>k. (k, clause_group h xs k)) (first_occurrences (clause_ids h xs))"
    by (intro map_cong) (auto simp: set_first_occurrences)
  moreover have "clause_group h (xs @ [y]) c = [y]"
    using assms clause_group_empty [OF False] by (simp add: clause_group_def)
  ultimately show ?thesis
    using False assms
    by (simp add: clause_groups_def clause_ids_snoc first_occurrences_snoc)
qed

lemma clauses_loop_groups:
  "\<forall>r\<in>set ys. clauseID (h r) \<noteq> None \<Longrightarrow>
   clauses_loop h ys (clause_groups h xs) = Inr (clause_groups h (xs @ ys))"
proof (induction ys arbitrary: xs)
  case Nil
  then show ?case by simp
next
  case (Cons y ys)
  from Cons.prems obtain c where c: "clauseID (h y) = Some c" by auto
  from Cons.prems have rest: "\<forall>r\<in>set ys. clauseID (h r) \<noteq> None" by simp
  let ?ks = "first_occurrences (clause_ids h xs)"
  have lookup: "map_of (clause_groups h xs) c
                = (if c \<in> set (clause_ids h xs) then Some (clause_group h xs c) else None)"
    by (simp add: clause_groups_def map_of_keyed set_first_occurrences)
  note snoc = clause_groups_snoc [where h = h and y = y and c = c and xs = xs, OF c]
  have step: "clauses_loop h (y # ys) (clause_groups h xs)
              = clauses_loop h ys (clause_groups h (xs @ [y]))"
  proof (cases "c \<in> set (clause_ids h xs)")
    case True
    then have "c \<in> set ?ks" by (simp add: set_first_occurrences)
    from dict_set_keyed [OF distinct_first_occurrences this]
    have "dict_set c (clause_group h xs c @ [y]) (clause_groups h xs)
          = map (\<lambda>k. (k, if k = c then clause_group h xs c @ [y] else clause_group h xs k)) ?ks"
      by (simp add: clause_groups_def)
    with True c lookup show ?thesis
      by (simp add: snoc)
  next
    case False
    then have new: "c \<notin> fst ` set (clause_groups h xs)"
      by (auto simp: clause_groups_def set_first_occurrences)
    have "dict_set c [] (clause_groups h xs) = clause_groups h xs @ [(c, [])]"
      by (rule dict_set_new [OF new])
    moreover have "dict_set c [y] (clause_groups h xs @ [(c, [])]) = clause_groups h xs @ [(c, [y])]"
      by (rule dict_set_last [OF new])
    ultimately show ?thesis
      using False c lookup by (simp add: snoc map_add_def)
  qed
  from Cons.IH [OF rest, of "xs @ [y]"] step show ?case by simp
qed

lemma length_filter_eq_distinct:
  "distinct ks \<Longrightarrow> c \<in> set ks \<Longrightarrow> length (filter (\<lambda>k. k = c) ks) = 1"
  by (induction ks) (auto simp: filter_empty_conv)

lemma one_group:
  assumes "r \<in> set jsonSent" and "clauseID (h r) = Some c"
  shows "length (filter (\<lambda>(k, g). r \<in> set g) (clause_groups h jsonSent)) = 1"
proof -
  let ?ks = "first_occurrences (clause_ids h jsonSent)"
  from assms have "c \<in> set (clause_ids h jsonSent)"
    by (force simp: clause_ids_def)
  then have c: "c \<in> set ?ks" by (simp add: set_first_occurrences)
  have "(r \<in> set (clause_group h jsonSent k)) = (k = c)" for k
    using assms by (auto simp: clause_group_def)
  then have "filter (\<lambda>(k, g). r \<in> set g) (clause_groups h jsonSent)
             = map (\<lambda>k. (k, clause_group h jsonSent k)) (filter (\<lambda>k. k = c) ?ks)"
    by (simp add: clause_groups_def filter_map comp_def)
  then show ?thesis
    by (simp add: length_filter_eq_distinct [OF distinct_first_occurrences c])
qed

text \<open>
  Claim C9 (clause grouping is a partition): on a sentence in which every token carries a
  \<^verbatim>\<open>clauseID\<close>, \<open>getClausesByClauseIDs\<close> leaves the store as it is and returns the dict
  \<open>clause_groups\<close>: its keys are the \<^verbatim>\<open>clauseID\<close> values in the order of their first
  occurrence, the group of a key lists the tokens that carry it in sentence order, and
  every token of the sentence is in exactly one group, the one of its own
  \<^verbatim>\<open>clauseID\<close>.
\<close>

theorem getClausesByClauseIDs_partition:
  assumes "\<forall>r\<in>set jsonSent. clauseID (h r) \<noteq> None"
  shows "getClausesByClauseIDs h jsonSent = (h, Inr (clause_groups h jsonSent))
    \<and> (\<forall>r\<in>set jsonSent.
          length (filter (\<lambda>(c, g). r \<in> set g) (clause_groups h jsonSent)) = 1)"
proof -
  have "clause_groups h [] = []"
    by (simp add: clause_groups_def clause_ids_def)
  with clauses_loop_groups [OF assms, of "[]"]
  have "clauses_loop h jsonSent [] = Inr (clause_groups h jsonSent)" by simp
  moreover from assms have "\<not> list_ex (\<lambda>tokenStruct. clauseID (h tokenStruct) = None) jsonSent"
    by (simp add: list_ex_iff)
  ultimately have "getClausesByClauseIDs h jsonSent = (h, Inr (clause_groups h jsonSent))"
    by (simp add: getClausesByClauseIDs_def)
  moreover have "length (filter (\<lambda>(c, g). r \<in> set g) (clause_groups h jsonSent)) = 1"
    if "r \<in> set jsonSent" for r
  proof -
    from that assms obtain c where "clauseID (h r) = Some c" by auto
    with that show ?thesis by (rule one_group)
  qed
  ultimately show ?thesis by blast
qed

theorem getClausesByClauseIDs_partition_witness:
  "getClausesByClauseIDs
     (blank_heap(0 := in_clause (PyInt 7), 1 := in_clause (PyInt 3), 2 := in_clause (PyInt 7)))
     [0, 1, 2]
   = (blank_heap(0 := in_clause (PyInt 7), 1 := in_clause (PyInt 3), 2 := in_clause (PyInt 7)),
      Inr [(PyInt 7, [0, 2]), (PyInt 3, [1])])"
  using getClausesByClauseIDs_partition
    [of "[0, 1, 2]" "blank_heap(0 := in_clause (PyInt 7), 1 := in_clause (PyInt 3), 2 := in_clause (PyInt 7))"]
  by (simp add: blank_heap_def blank_def in_clause_def clause_groups_def clause_group_def
      clause_ids_def)

end
